theory Spec2Isabelle
  imports Main "HOL-Library.Sublist"
begin

section \<open>The pre-build hook of geogram-esp32 (scripts/pre\_build.py)\<close>

text \<open>
  The hook \<open>pre_build_action\<close> reads the build flags of the host build environment,
  prints one line when a board model is given, and calls
  \<open>os.makedirs(os.path.join(project_dir, "firmware"), exist_ok=True)\<close>.
  Exceptions are values: the scan could only raise \<open>IndexError\<close> (from \<open>[1]\<close>), the
  directory step raises the \<open>OSError\<close> subclasses of the operating system.
\<close>

subsection \<open>Errors\<close>

datatype oserror = FileExistsError | FileNotFoundError | NotADirectoryError | PermissionError

datatype error = IndexError | OSError oserror

subsection \<open>Python string primitives\<close>

text \<open>\<open>sub in s\<close> on strings: \<open>sub\<close> occurs in \<open>s\<close> as a contiguous substring.\<close>

fun contains :: "string \<Rightarrow> string \<Rightarrow> bool" where
  "contains sub [] = (sub = [])"
| "contains sub (c # cs) = (prefix sub (c # cs) \<or> contains sub cs)"

text \<open>\<open>s.split(sep)\<close> for a separator of one character: never an empty list.\<close>

fun py_split :: "char \<Rightarrow> string \<Rightarrow> string list" where
  "py_split sep [] = [[]]"
| "py_split sep (c # cs) =
     (if c = sep then [] # py_split sep cs
      else (case py_split sep cs of
              [] \<Rightarrow> [[c]]
            | x # xs \<Rightarrow> (c # x) # xs))"

text \<open>\<open>xs[i]\<close> for a non-negative literal index: out of range raises \<open>IndexError\<close>.\<close>

definition py_index :: "'a list \<Rightarrow> nat \<Rightarrow> error + 'a" where
  "py_index xs i = (if i < length xs then Inr (xs ! i) else Inl IndexError)"

text \<open>The truth value of \<open>board_model\<close>: \<open>None\<close> and the empty string are false.\<close>

fun truthy :: "string option \<Rightarrow> bool" where
  "truthy None = False"
| "truthy (Some s) = (s \<noteq> [])"

subsection \<open>The build-flag scan (lines 8 to 12)\<close>

definition marker :: string where
  "marker = ''BOARD_MODEL=''"

text \<open>Line 11: \<open>flag.split("=")[1]\<close>.\<close>

definition split_value :: "string \<Rightarrow> error + string" where
  "split_value flag = py_index (py_split CHR ''='' flag) 1"

text \<open>The \<open>for\<close> loop with its \<open>break\<close>; \<open>Inr None\<close> is \<open>board_model = None\<close>.\<close>

fun scan_flags :: "string list \<Rightarrow> error + string option" where
  "scan_flags [] = Inr None"
| "scan_flags (flag # flags) =
     (if contains marker flag
      then (case split_value flag of Inl e \<Rightarrow> Inl e | Inr v \<Rightarrow> Inr (Some v))
      else scan_flags flags)"

text \<open>Line 15: the text given to \<open>print\<close>.\<close>

definition log_line :: "string \<Rightarrow> string" where
  "log_line board_model = ''[Geogram] Building for board model: '' @ board_model"

subsection \<open>posixpath: join and split\<close>

text \<open>\<open>os.path.join(a, b)\<close> (posixpath) with two arguments.\<close>

definition path_join :: "string \<Rightarrow> string \<Rightarrow> string" where
  "path_join a b =
     (if prefix ''/'' b then b
      else if a = [] \<or> last a = CHR ''/'' then a @ b
      else a @ ''/'' @ b)"

text \<open>
  \<open>os.path.split(p)\<close> (posixpath): the tail is what follows the last slash, the head
  what precedes it, without its trailing slashes unless it consists of slashes only.
\<close>

definition rstrip_sep :: "string \<Rightarrow> string" where
  "rstrip_sep s = rev (dropWhile (\<lambda>c. c = CHR ''/'') (rev s))"

definition path_split :: "string \<Rightarrow> string \<times> string" where
  "path_split p =
     (let head = rev (dropWhile (\<lambda>c. c \<noteq> CHR ''/'') (rev p));
          tail = rev (takeWhile (\<lambda>c. c \<noteq> CHR ''/'') (rev p))
      in (if head \<noteq> [] \<and> head \<noteq> replicate (length head) CHR ''/''  then rstrip_sep head else head,
          tail))"

subsection \<open>The file system\<close>

text \<open>
  A POSIX directory tree without symbolic links. A node is addressed by the list of
  names leading to it from the root; the root \<open>[]\<close> is always a directory.
  \<open>readonly\<close> marks the directories in which the process may not create an entry.
\<close>

datatype kind = Directory | RegularFile

record filesystem =
  entries :: "string list \<Rightarrow> kind option"
  readonly :: "string list \<Rightarrow> bool"
  cwd :: "string list"

definition node :: "filesystem \<Rightarrow> string list \<Rightarrow> kind option" where
  "node fs p = (if p = [] then Some Directory else entries fs p)"

text \<open>
  Path resolution, one component at a time from directory \<open>cur\<close>: every component is
  looked up in a directory, so the node reached so far must be one.
\<close>

fun walk :: "filesystem \<Rightarrow> string list \<Rightarrow> string list \<Rightarrow> oserror + string list" where
  "walk fs cur [] = Inr cur"
| "walk fs cur (c # cs) =
     (case node fs cur of
        None \<Rightarrow> Inl FileNotFoundError
      | Some RegularFile \<Rightarrow> Inl NotADirectoryError
      | Some Directory \<Rightarrow>
          if c = [] \<or> c = ''.'' then walk fs cur cs
          else if c = ''..'' then walk fs (butlast cur) cs
          else walk fs (cur @ [c]) cs)"

definition start_dir :: "filesystem \<Rightarrow> string \<Rightarrow> string list" where
  "start_dir fs p = (if prefix ''/'' p then [] else cwd fs)"

text \<open>\<open>os.stat(p)\<close>, as far as the kind of the node.\<close>

definition stat :: "filesystem \<Rightarrow> string \<Rightarrow> oserror + kind" where
  "stat fs p =
     (if p = [] then Inl FileNotFoundError
      else (case walk fs (start_dir fs p) (py_split CHR ''/'' p) of
              Inl e \<Rightarrow> Inl e
            | Inr q \<Rightarrow> (case node fs q of
                          None \<Rightarrow> Inl FileNotFoundError
                        | Some k \<Rightarrow> Inr k)))"

text \<open>\<open>os.path.exists\<close> and \<open>os.path.isdir\<close>: any \<open>OSError\<close> of \<open>stat\<close> is False.\<close>

definition path_exists :: "filesystem \<Rightarrow> string \<Rightarrow> bool" where
  "path_exists fs p = (case stat fs p of Inl e \<Rightarrow> False | Inr k \<Rightarrow> True)"

definition isdir :: "filesystem \<Rightarrow> string \<Rightarrow> bool" where
  "isdir fs p = (case stat fs p of Inl e \<Rightarrow> False | Inr k \<Rightarrow> k = Directory)"

text \<open>
  \<open>os.mkdir(p)\<close>: trailing slashes are ignored, the parent must resolve to a directory,
  the last name must be new, and the parent must be writable. A failure changes nothing.
\<close>

definition strip_trailing :: "string list \<Rightarrow> string list" where
  "strip_trailing cs = rev (dropWhile (\<lambda>c. c = []) (rev cs))"

definition mkdir :: "filesystem \<Rightarrow> string \<Rightarrow> oserror option \<times> filesystem" where
  "mkdir fs p =
     (let cs = strip_trailing (py_split CHR ''/'' p) in
      if p = [] then (Some FileNotFoundError, fs)
      else if cs = [] then (Some FileExistsError, fs)
      else (case walk fs (start_dir fs p) (butlast cs) of
              Inl e \<Rightarrow> (Some e, fs)
            | Inr d \<Rightarrow>
               (case node fs d of
                  None \<Rightarrow> (Some FileNotFoundError, fs)
                | Some RegularFile \<Rightarrow> (Some NotADirectoryError, fs)
                | Some Directory \<Rightarrow>
                    if last cs = ''.'' \<or> last cs = ''..'' then (Some FileExistsError, fs)
                    else if node fs (d @ [last cs]) \<noteq> None then (Some FileExistsError, fs)
                    else if readonly fs d then (Some PermissionError, fs)
                    else (None, fs\<lparr>entries := (entries fs)(d @ [last cs] \<mapsto> Directory)\<rparr>))))"

subsection \<open>os.makedirs\<close>

text \<open>
  The first lines of \<open>os.makedirs\<close>: \<open>head, tail = path.split(name)\<close>, and once more
  on the head when the tail is empty.
\<close>

definition split_name :: "string \<Rightarrow> string \<times> string" where
  "split_name name =
     (case path_split name of
        (head, tail) \<Rightarrow> if tail = [] then path_split head else (head, tail))"

text \<open>
  The last statement of \<open>os.makedirs\<close>: \<open>mkdir(name)\<close>, whose \<open>OSError\<close> is
  swallowed when \<open>exist_ok\<close> holds and the name is a directory.
\<close>

definition make_leaf :: "filesystem \<Rightarrow> string \<Rightarrow> bool \<Rightarrow> oserror option \<times> filesystem" where
  "make_leaf fs name exist_ok =
     (case mkdir fs name of
        (None, fs') \<Rightarrow> (None, fs')
      | (Some e, fs') \<Rightarrow>
          if \<not> exist_ok \<or> \<not> isdir fs' name then (Some e, fs') else (None, fs'))"

text \<open>
  What follows the recursive call on the head: a \<open>FileExistsError\<close> of it is passed
  over, any other error leaves the function; a tail \<open>.\<close> returns at once.
\<close>

definition after_head ::
  "oserror option \<times> filesystem \<Rightarrow> string \<Rightarrow> string \<Rightarrow> bool \<Rightarrow> oserror option \<times> filesystem" where
  "after_head r tail name exist_ok =
     (case r of
        (Some e, fs1) \<Rightarrow>
          if e \<noteq> FileExistsError then (Some e, fs1)
          else if tail = ''.'' then (None, fs1)
          else make_leaf fs1 name exist_ok
      | (None, fs1) \<Rightarrow>
          if tail = ''.'' then (None, fs1)
          else make_leaf fs1 name exist_ok)"

lemma path_split_length:
  "length (fst (path_split p)) + length (snd (path_split p)) \<le> length p"
proof -
  have a: "length (rstrip_sep s) \<le> length s" for s
    using length_dropWhile_le [of "\<lambda>c. c = CHR ''/''" "rev s"] by (simp add: rstrip_sep_def)
  have b: "length (dropWhile (\<lambda>c. c \<noteq> CHR ''/'') (rev p))
           + length (takeWhile (\<lambda>c. c \<noteq> CHR ''/'') (rev p)) = length p"
    using takeWhile_dropWhile_id [of "\<lambda>c. c \<noteq> CHR ''/''" "rev p"]
    by (metis add.commute length_append length_rev)
  show ?thesis
    using a [of "rev (dropWhile (\<lambda>c. c \<noteq> CHR ''/'') (rev p))"] b
    by (auto simp: path_split_def Let_def)
qed

lemma split_name_shorter:
  "snd (split_name name) \<noteq> [] \<Longrightarrow> length (fst (split_name name)) < length name"
proof -
  assume t: "snd (split_name name) \<noteq> []"
  obtain h tl where ht: "path_split name = (h, tl)" by (cases "path_split name")
  have l1: "length h + length tl \<le> length name"
    using path_split_length [of name] ht by simp
  show ?thesis
  proof (cases "tl = []")
    case True
    then have s: "split_name name = path_split h"
      by (simp add: split_name_def ht)
    have "length (fst (path_split h)) + length (snd (path_split h)) \<le> length h"
      by (rule path_split_length)
    moreover have "length (snd (path_split h)) > 0" using t s by simp
    ultimately have "length (fst (path_split h)) < length name" using l1 by linarith
    then show ?thesis by (simp only: s)
  next
    case False
    then have s: "split_name name = (h, tl)"
      by (simp add: split_name_def ht)
    have "length tl > 0" using False by simp
    then have "length h < length name" using l1 by linarith
    then show ?thesis by (simp only: s fst_conv)
  qed
qed

function makedirs :: "filesystem \<Rightarrow> string \<Rightarrow> bool \<Rightarrow> oserror option \<times> filesystem" where
  "makedirs fs name exist_ok =
     (if fst (split_name name) \<noteq> [] \<and> snd (split_name name) \<noteq> []
         \<and> \<not> path_exists fs (fst (split_name name))
      then after_head (makedirs fs (fst (split_name name)) exist_ok)
             (snd (split_name name)) name exist_ok
      else make_leaf fs name exist_ok)"
  by pat_completeness auto
termination
  by (relation "measure (\<lambda>(fs, name, exist_ok). length name)")
     (auto simp: split_name_shorter)

declare makedirs.simps [simp del]

subsection \<open>The hook\<close>

text \<open>
  The host build environment as far as the hook reads it: \<open>env.get("BUILD_FLAGS", [])\<close>
  and \<open>env.subst("$PROJECT_DIR")\<close>.
\<close>

record env =
  BUILD_FLAGS :: "string list option"
  PROJECT_DIR :: string

definition env_get_flags :: "env \<Rightarrow> string list" where
  "env_get_flags e = (case BUILD_FLAGS e of None \<Rightarrow> [] | Some flags \<Rightarrow> flags)"

text \<open>Everything the hook can read or change: the environment, the console, the disk.\<close>

record world =
  environ :: env
  console :: "string list"
  filesys :: filesystem

definition firmware_dir :: "env \<Rightarrow> string" where
  "firmware_dir e = path_join (PROJECT_DIR e) ''firmware''"

text \<open>
  \<open>pre_build_action\<close>: the scan, the \<open>print\<close> under \<open>if board_model\<close>, then
  \<open>os.makedirs(firmware_dir, exist_ok=True)\<close>. The first component of the result is
  the exception that leaves the hook, if any.
\<close>

definition pre_build_action :: "world \<Rightarrow> error option \<times> world" where
  "pre_build_action w =
     (case scan_flags (env_get_flags (environ w)) of
        Inl e \<Rightarrow> (Some e, w)
      | Inr board_model \<Rightarrow>
          (let w1 = (if truthy board_model
                     then w\<lparr>console := console w @ [log_line (the board_model)]\<rparr>
                     else w)
           in (case makedirs (filesys w1) (firmware_dir (environ w1)) True of
                 (r, fs') \<Rightarrow> (map_option OSError r, w1\<lparr>filesys := fs'\<rparr>))))"

subsection \<open>Example states\<close>

text \<open>
  Three disks: one with the root directory only, one where \<open>/tmp/proj\<close> exists, and
  one where \<open>/tmp/proj\<close> exists but refuses new entries. \<open>world_of\<close> is a fresh build
  with the given flags and project directory.
\<close>

definition empty_disk :: filesystem where
  "empty_disk = \<lparr>entries = Map.empty, readonly = (\<lambda>p. False), cwd = []\<rparr>"

definition proj_disk :: filesystem where
  "proj_disk =
     \<lparr>entries = [[''tmp''] \<mapsto> Directory, [''tmp'', ''proj''] \<mapsto> Directory],
      readonly = (\<lambda>p. False), cwd = [''tmp'', ''proj'']\<rparr>"

definition locked_disk :: filesystem where
  "locked_disk = proj_disk\<lparr>readonly := (\<lambda>p. p = [''tmp'', ''proj''])\<rparr>"

definition world_of :: "string list \<Rightarrow> string \<Rightarrow> filesystem \<Rightarrow> world" where
  "world_of flags dir disk =
     \<lparr>environ = \<lparr>BUILD_FLAGS = Some flags, PROJECT_DIR = dir\<rparr>, console = [], filesys = disk\<rparr>"

subsection \<open>Notions for stating the properties of the directory step\<close>

text \<open>The names of a path: its components between slashes, without the empty ones.\<close>

definition names :: "string \<Rightarrow> string list" where
  "names p = filter (\<lambda>c. c \<noteq> []) (py_split CHR ''/'' p)"

text \<open>
  \<open>grows fs fs'\<close>: the disk \<open>fs'\<close> is \<open>fs\<close> with new directories added and nothing
  else changed.
\<close>

definition grows :: "filesystem \<Rightarrow> filesystem \<Rightarrow> bool" where
  "grows fs fs' \<longleftrightarrow>
     readonly fs' = readonly fs \<and> cwd fs' = cwd fs
     \<and> (\<forall>q. entries fs' q = entries fs q \<or> (entries fs q = None \<and> entries fs' q = Some Directory))"




subsection \<open>The scanner's contract in the words of the specification\<close>

text \<open>
  The specification describes the extracted value as "the substring after the first
  \<open>=\<close>". This definition follows those words, for comparison with \<open>split_value\<close>.
\<close>

definition spec_after_first_eq :: "string \<Rightarrow> string" where
  "spec_after_first_eq flag = tl (dropWhile (\<lambda>c. c \<noteq> CHR ''='') flag)"

section \<open>Properties of the scan\<close>

lemma contains_set: "contains sub s \<Longrightarrow> set sub \<subseteq> set s"
proof (induction s)
  case Nil
  then show ?case by simp
next
  case (Cons c cs)
  show ?case
  proof (cases "prefix sub (c # cs)")
    case True
    then show ?thesis by (rule set_mono_prefix)
  next
    case False
    with Cons show ?thesis by auto
  qed
qed

lemma marker_has_eq: "contains marker f \<Longrightarrow> CHR ''='' \<in> set f"
  using contains_set [of marker f] by (auto simp: marker_def)

lemma py_split_not_Nil: "py_split sep s \<noteq> []"
  by (induction s) (auto split: list.splits)

lemma py_split_unfold:
  "py_split sep s = takeWhile (\<lambda>c. c \<noteq> sep) s #
     (if sep \<in> set s then py_split sep (tl (dropWhile (\<lambda>c. c \<noteq> sep) s)) else [])"
proof (induction s)
  case Nil
  then show ?case by simp
next
  case (Cons c cs)
  then show ?case by (auto split: list.splits)
qed

lemma py_split_hd: "hd (py_split sep s) = takeWhile (\<lambda>c. c \<noteq> sep) s"
  by (subst py_split_unfold) simp

text \<open>
  With a \<open>=\<close> in the flag, \<open>split("=")\<close> has at least two fields, so \<open>[1]\<close> is in
  range: it is the field between the first \<open>=\<close> and the next one.
\<close>

lemma split_value_eq:
  "CHR ''='' \<in> set f \<Longrightarrow>
   split_value f = Inr (takeWhile (\<lambda>c. c \<noteq> CHR ''='') (spec_after_first_eq f))"
proof -
  assume a: "CHR ''='' \<in> set f"
  let ?r = "tl (dropWhile (\<lambda>c. c \<noteq> CHR ''='') f)"
  have 1: "py_split CHR ''='' f = takeWhile (\<lambda>c. c \<noteq> CHR ''='') f # py_split CHR ''='' ?r"
    using a by (subst py_split_unfold) simp
  have 2: "py_split CHR ''='' ?r \<noteq> []" by (rule py_split_not_Nil)
  have 3: "py_split CHR ''='' f ! 1 = hd (py_split CHR ''='' ?r)"
    using 2 by (simp add: 1 hd_conv_nth)
  have 4: "1 < length (py_split CHR ''='' f)"
    using 2 by (subst 1) simp
  show ?thesis
    by (simp only: split_value_def py_index_def 4 3 py_split_hd if_True spec_after_first_eq_def)
qed

lemma scan_flags_find:
  "scan_flags flags =
     (case find (contains marker) flags of
        None \<Rightarrow> Inr None
      | Some f \<Rightarrow> (case split_value f of Inl e \<Rightarrow> Inl e | Inr v \<Rightarrow> Inr (Some v)))"
  by (induction flags) auto

lemma scan_flags_skip:
  "\<forall>g \<in> set pre. \<not> contains marker g \<Longrightarrow> scan_flags (pre @ rest) = scan_flags rest"
  by (induction pre) auto

lemma find_marker_contains: "find (contains marker) flags = Some f \<Longrightarrow> contains marker f"
  by (induction flags) (auto split: if_splits)

text \<open>The scan never raises: \<open>[1]\<close> is only evaluated on a flag that holds a \<open>=\<close>.\<close>

lemma scan_flags_no_error: "scan_flags flags \<noteq> Inl e"
proof (cases "find (contains marker) flags")
  case None
  then show ?thesis by (simp add: scan_flags_find)
next
  case (Some f)
  then have "CHR ''='' \<in> set f"
    by (intro marker_has_eq find_marker_contains)
  then show ?thesis
    using Some by (simp add: scan_flags_find split_value_eq)
qed

text \<open>What the hook prints, whatever the directory step does afterwards.\<close>

lemma console_pre_build_action:
  "console (snd (pre_build_action w)) =
     (case scan_flags (env_get_flags (environ w)) of
        Inl e \<Rightarrow> console w
      | Inr board_model \<Rightarrow>
          if truthy board_model then console w @ [log_line (the board_model)] else console w)"
  by (simp add: pre_build_action_def Let_def split: sum.splits prod.splits)

section \<open>Properties of path resolution and of the directory step\<close>

subsection \<open>Walking\<close>

lemma walk_append:
  "walk fs cur (xs @ ys) = (case walk fs cur xs of Inl e \<Rightarrow> Inl e | Inr q \<Rightarrow> walk fs q ys)"
  by (induction xs arbitrary: cur) (auto split: option.splits kind.splits)

lemma walk_single_empty:
  "walk fs d [[]] =
     (case node fs d of None \<Rightarrow> Inl FileNotFoundError
      | Some RegularFile \<Rightarrow> Inl NotADirectoryError
      | Some Directory \<Rightarrow> Inr d)"
  by (simp split: option.splits kind.splits)

lemma walk_skip_empty: "cs \<noteq> [] \<Longrightarrow> walk fs q ([] # cs) = walk fs q cs"
  by (cases cs) (auto split: option.splits kind.splits)

lemma walk_filter:
  "walk fs q (cs @ [c]) = walk fs q (filter (\<lambda>x. x \<noteq> []) cs @ [c])"
proof (induction cs arbitrary: q)
  case Nil
  then show ?case by simp
next
  case (Cons x xs)
  show ?case
  proof (cases "x = []")
    case True
    have "walk fs q (([] # xs) @ [c]) = walk fs q (xs @ [c])"
      using walk_skip_empty [of "xs @ [c]" fs q] by simp
    then show ?thesis using True Cons.IH by simp
  next
    case False
    then show ?thesis using Cons.IH by (simp split: option.splits kind.splits)
  qed
qed

lemma walk_mono:
  "\<forall>p. node fs p \<noteq> None \<longrightarrow> node fs' p = node fs p \<Longrightarrow>
   walk fs cur cs = Inr q \<Longrightarrow> walk fs' cur cs = Inr q"
proof (induction cs arbitrary: cur)
  case Nil
  then show ?case by simp
next
  case (Cons c cs)
  from Cons.prems(2) have d: "node fs cur = Some Directory"
    by (auto split: option.splits kind.splits)
  then have d': "node fs' cur = Some Directory"
    using Cons.prems(1) by auto
  show ?case
    using Cons.prems(2) Cons.IH [OF Cons.prems(1)] d d'
    by (auto split: if_splits)
qed

subsection \<open>Splitting paths\<close>

lemma py_split_append_sep:
  "py_split sep (a @ sep # b) = py_split sep a @ py_split sep b"
proof (induction a)
  case Nil
  then show ?case by simp
next
  case (Cons c a)
  then show ?case
    using py_split_not_Nil [of sep a] by (auto split: list.splits)
qed

lemma py_split_no_sep: "sep \<notin> set t \<Longrightarrow> py_split sep t = [t]"
  by (induction t) auto

lemma names_Nil [simp]: "names [] = []"
  by (simp add: names_def)

lemma names_append_sep: "names (a @ CHR ''/'' # b) = names a @ names b"
  by (simp add: names_def py_split_append_sep)

lemma names_no_sep: "CHR ''/'' \<notin> set t \<Longrightarrow> names t = (if t = [] then [] else [t])"
  by (simp add: names_def py_split_no_sep)

lemma names_snoc_sep: "names (a @ ''/'') = names a"
  using names_append_sep [of a "[]"] by simp

lemma names_rstrip: "names (rstrip_sep s) = names s"
proof (induction s rule: rev_induct)
  case Nil
  then show ?case by (simp add: rstrip_sep_def)
next
  case (snoc c s)
  show ?case
  proof (cases "c = CHR ''/''")
    case True
    then have "rstrip_sep (s @ [c]) = rstrip_sep s" by (simp add: rstrip_sep_def)
    then show ?thesis using snoc True names_snoc_sep [of s] by simp
  next
    case False
    then show ?thesis by (simp add: rstrip_sep_def)
  qed
qed

lemma rstrip_sep_prefix: "prefix (rstrip_sep s) s"
proof -
  have "s = rev (dropWhile (\<lambda>c. c = CHR ''/'') (rev s)) @ rev (takeWhile (\<lambda>c. c = CHR ''/'') (rev s))"
    by (metis rev_append rev_rev_ident takeWhile_dropWhile_id)
  then show ?thesis unfolding rstrip_sep_def by (metis prefixI)
qed

lemma rstrip_sep_last:
  "rstrip_sep s \<noteq> [] \<Longrightarrow> last (rstrip_sep s) \<noteq> CHR ''/''"
proof -
  assume a: "rstrip_sep s \<noteq> []"
  then have n: "dropWhile (\<lambda>c. c = CHR ''/'') (rev s) \<noteq> []"
    by (simp add: rstrip_sep_def)
  then have "hd (dropWhile (\<lambda>c. c = CHR ''/'') (rev s)) \<noteq> CHR ''/''"
    using hd_dropWhile [of "\<lambda>c. c = CHR ''/''" "rev s"] by simp
  then show ?thesis using n by (simp add: rstrip_sep_def last_rev)
qed

lemma rstrip_sep_Nil: "rstrip_sep s = [] \<Longrightarrow> s = replicate (length s) CHR ''/''"
proof -
  assume "rstrip_sep s = []"
  then have "dropWhile (\<lambda>c. c = CHR ''/'') (rev s) = []" by (simp add: rstrip_sep_def)
  then have "\<forall>c \<in> set (rev s). c = CHR ''/''" by (simp add: dropWhile_eq_Nil_conv)
  then have "\<forall>c \<in> set s. c = CHR ''/''" by simp
  then show ?thesis by (simp add: replicate_length_same [symmetric])
qed

text \<open>The raw head (before stripping) and the tail.\<close>

lemma split_raw:
  fixes p :: string
  defines "h0 \<equiv> rev (dropWhile (\<lambda>c. c \<noteq> CHR ''/'') (rev p))"
    and "t \<equiv> rev (takeWhile (\<lambda>c. c \<noteq> CHR ''/'') (rev p))"
  shows "p = h0 @ t" and "CHR ''/'' \<notin> set t" and "h0 = [] \<or> last h0 = CHR ''/''"
proof -
  show "p = h0 @ t"
    unfolding h0_def t_def by (metis rev_append rev_rev_ident takeWhile_dropWhile_id)
  show "CHR ''/'' \<notin> set t"
    unfolding t_def using set_takeWhileD [of "CHR ''/''" "\<lambda>c. c \<noteq> CHR ''/''" "rev p"] by auto
  show "h0 = [] \<or> last h0 = CHR ''/''"
  proof (cases "dropWhile (\<lambda>c. c \<noteq> CHR ''/'') (rev p) = []")
    case True
    then show ?thesis by (simp add: h0_def)
  next
    case False
    then have "hd (dropWhile (\<lambda>c. c \<noteq> CHR ''/'') (rev p)) = CHR ''/''"
      using hd_dropWhile [of "\<lambda>c. c \<noteq> CHR ''/''" "rev p"] by simp
    then show ?thesis using False by (simp add: h0_def last_rev)
  qed
qed

lemma snd_path_split: "snd (path_split p) = rev (takeWhile (\<lambda>c. c \<noteq> CHR ''/'') (rev p))"
  by (simp add: path_split_def Let_def)

lemma fst_path_split:
  "fst (path_split p) =
     (let h0 = rev (dropWhile (\<lambda>c. c \<noteq> CHR ''/'') (rev p))
      in if h0 \<noteq> [] \<and> h0 \<noteq> replicate (length h0) CHR ''/'' then rstrip_sep h0 else h0)"
  by (simp add: path_split_def Let_def)

lemma path_split_no_sep: "CHR ''/'' \<notin> set (snd (path_split p))"
  using split_raw(2) [of p] by (simp add: snd_path_split)

lemma path_split_prefix: "prefix (fst (path_split p)) p"
proof -
  let ?h0 = "rev (dropWhile (\<lambda>c. c \<noteq> CHR ''/'') (rev p))"
  have 1: "prefix ?h0 p" using split_raw(1) [of p] by (metis prefixI)
  have 2: "prefix (rstrip_sep ?h0) p" using rstrip_sep_prefix [of ?h0] 1 by (rule prefix_order.trans)
  show ?thesis using 1 2 by (simp add: fst_path_split Let_def)
qed


lemma names_path_split:
  "names p = names (fst (path_split p)) @ names (snd (path_split p))"
proof -
  define h0 where "h0 = rev (dropWhile (\<lambda>c. c \<noteq> CHR ''/'') (rev p))"
  define t where "t = rev (takeWhile (\<lambda>c. c \<noteq> CHR ''/'') (rev p))"
  have p: "p = h0 @ t" and l: "h0 = [] \<or> last h0 = CHR ''/''"
    using split_raw(1,3) [of p] by (simp_all add: h0_def t_def)
  have h: "names (fst (path_split p)) = names h0"
    by (simp add: fst_path_split Let_def names_rstrip h0_def)
  have "names p = names h0 @ names t"
  proof (cases "h0 = []")
    case True
    then show ?thesis using p by simp
  next
    case False
    then have "last h0 = CHR ''/''" using l by simp
    then have e: "h0 = butlast h0 @ ''/''"
      using False append_butlast_last_id [of h0] by simp
    have "p = butlast h0 @ CHR ''/'' # t"
      using p e by (metis append.assoc append_Cons append_Nil)
    then have "names p = names (butlast h0) @ names t"
      using names_append_sep [of "butlast h0" t] by simp
    moreover have "names h0 = names (butlast h0)"
      using names_snoc_sep [of "butlast h0"] e by simp
    ultimately show ?thesis by simp
  qed
  then show ?thesis by (simp add: h snd_path_split t_def)
qed

text \<open>A head is a run of slashes or ends in a non-slash.\<close>

lemma fst_path_split_shape:
  "fst (path_split p) = replicate (length (fst (path_split p))) CHR ''/''
   \<or> (fst (path_split p) \<noteq> [] \<and> last (fst (path_split p)) \<noteq> CHR ''/'')"
proof -
  define h0 where "h0 = rev (dropWhile (\<lambda>c. c \<noteq> CHR ''/'') (rev p))"
  have f0: "fst (path_split p) =
      (if h0 \<noteq> [] \<and> h0 \<noteq> replicate (length h0) CHR ''/'' then rstrip_sep h0 else h0)"
    by (simp add: fst_path_split Let_def h0_def)
  show ?thesis
  proof (cases "h0 \<noteq> [] \<and> h0 \<noteq> replicate (length h0) CHR ''/''")
    case True
    then have f: "fst (path_split p) = rstrip_sep h0" by (simp add: f0)
    have "rstrip_sep h0 \<noteq> []" using True rstrip_sep_Nil [of h0] by blast
    then show ?thesis using f rstrip_sep_last [of h0] by simp
  next
    case False
    then have f: "fst (path_split p) = h0" using f0 by presburger
    from False have "h0 = replicate (length h0) CHR ''/''" by auto
    then show ?thesis using f by simp
  qed
qed


lemma split_name_cases:
  "split_name name =
     (if snd (path_split name) = [] then path_split (fst (path_split name)) else path_split name)"
  by (cases "path_split name") (simp add: split_name_def)

lemma split_name_no_sep: "CHR ''/'' \<notin> set (snd (split_name name))"
  by (simp add: split_name_cases path_split_no_sep)

lemma split_name_prefix: "prefix (fst (split_name name)) name"
proof (cases "snd (path_split name) = []")
  case True
  have "prefix (fst (path_split (fst (path_split name)))) (fst (path_split name))"
    by (rule path_split_prefix)
  then have "prefix (fst (path_split (fst (path_split name)))) name"
    using path_split_prefix [of name] by (rule prefix_order.trans)
  then show ?thesis using True by (simp add: split_name_cases)
next
  case False
  then show ?thesis by (simp add: split_name_cases path_split_prefix)
qed

lemma names_split_name_raw:
  "names name = names (fst (split_name name)) @ names (snd (split_name name))"
proof (cases "snd (path_split name) = []")
  case True
  have "names name = names (fst (path_split name))"
    using names_path_split [of name] True by simp
  also have "\<dots> = names (fst (path_split (fst (path_split name))))
                 @ names (snd (path_split (fst (path_split name))))"
    by (rule names_path_split)
  finally show ?thesis using True by (simp add: split_name_cases)
next
  case False
  then show ?thesis using names_path_split [of name] by (simp add: split_name_cases)
qed

lemma names_split_name:
  "snd (split_name name) \<noteq> [] \<Longrightarrow>
   names name = names (fst (split_name name)) @ [snd (split_name name)]"
  using names_split_name_raw [of name] split_name_no_sep [of name]
  by (simp add: names_no_sep)


lemma start_dir_prefix:
  "prefix h name \<Longrightarrow> h \<noteq> [] \<Longrightarrow> start_dir fs h = start_dir fs name"
  by (cases h; cases name) (auto simp: start_dir_def)

lemma split_name_shape:
  "fst (split_name name) = replicate (length (fst (split_name name))) CHR ''/''
   \<or> (fst (split_name name) \<noteq> [] \<and> last (fst (split_name name)) \<noteq> CHR ''/'')"
  by (simp add: split_name_cases fst_path_split_shape)

lemma filter_snoc_last:
  "xs \<noteq> [] \<Longrightarrow> P (last xs) \<Longrightarrow> filter P xs = filter P (butlast xs) @ [last xs]"
  using append_butlast_last_id [of xs] filter_append [of P "butlast xs" "[last xs]"]
  by (metis filter.simps(1) filter.simps(2))

lemma strip_trailing_filter:
  "filter (\<lambda>c. c \<noteq> []) (strip_trailing cs) = filter (\<lambda>c. c \<noteq> []) cs"
proof -
  have "filter (\<lambda>c. c \<noteq> []) (dropWhile (\<lambda>c. c = []) ys) = filter (\<lambda>c. c \<noteq> []) ys"
    for ys :: "string list"
    by (induction ys) auto
  from this [of "rev cs"]
  have "rev (filter (\<lambda>c. c \<noteq> []) (dropWhile (\<lambda>c. c = []) (rev cs)))
        = rev (filter (\<lambda>c. c \<noteq> []) (rev cs))"
    by simp
  then show ?thesis by (simp add: strip_trailing_def rev_filter)
qed

lemma strip_trailing_last: "strip_trailing cs \<noteq> [] \<Longrightarrow> last (strip_trailing cs) \<noteq> []"
proof -
  assume "strip_trailing cs \<noteq> []"
  then have n: "dropWhile (\<lambda>c. c = []) (rev cs) \<noteq> []" by (simp add: strip_trailing_def)
  then have "hd (dropWhile (\<lambda>c. c = []) (rev cs)) \<noteq> []"
    using hd_dropWhile [of "\<lambda>c. c = []" "rev cs"] by simp
  then show ?thesis using n by (simp add: strip_trailing_def last_rev)
qed

lemma strip_trailing_names:
  assumes "strip_trailing (py_split CHR ''/'' p) \<noteq> []"
  shows "names p = filter (\<lambda>c. c \<noteq> []) (butlast (strip_trailing (py_split CHR ''/'' p)))
                   @ [last (strip_trailing (py_split CHR ''/'' p))]"
proof -
  define ss where "ss = strip_trailing (py_split CHR ''/'' p)"
  have n: "ss \<noteq> []" using assms by (simp add: ss_def)
  have l: "last ss \<noteq> []" using strip_trailing_last assms by (simp add: ss_def)
  have "names p = filter (\<lambda>c. c \<noteq> []) ss"
    by (simp add: names_def ss_def strip_trailing_filter)
  also have "\<dots> = filter (\<lambda>c. c \<noteq> []) (butlast ss) @ [last ss]"
    using n l by (rule filter_snoc_last)
  finally show ?thesis by (simp add: ss_def)
qed

lemma strip_trailing_Nil: "strip_trailing (py_split CHR ''/'' p) = [] \<Longrightarrow> names p = []"
  using strip_trailing_filter [of "py_split CHR ''/'' p"] by (simp add: names_def)

text \<open>\<open>mkdir\<close> in terms of the names of the path.\<close>

lemma walk_dir:
  "walk fs s (ns @ [[]]) =
     (case walk fs s ns of
        Inl e \<Rightarrow> Inl e
      | Inr d \<Rightarrow> (case node fs d of
                    None \<Rightarrow> Inl FileNotFoundError
                  | Some RegularFile \<Rightarrow> Inl NotADirectoryError
                  | Some Directory \<Rightarrow> Inr d))"
  by (simp add: walk_append split: sum.splits option.splits kind.splits)

lemma mkdir_names:
  assumes "p \<noteq> []"
  shows "mkdir fs p =
     (if names p = [] then (Some FileExistsError, fs)
      else (case walk fs (start_dir fs p) (butlast (names p) @ [[]]) of
              Inl e \<Rightarrow> (Some e, fs)
            | Inr d \<Rightarrow>
                if last (names p) = ''.'' \<or> last (names p) = ''..'' then (Some FileExistsError, fs)
                else if node fs (d @ [last (names p)]) \<noteq> None then (Some FileExistsError, fs)
                else if readonly fs d then (Some PermissionError, fs)
                else (None, fs\<lparr>entries := (entries fs)(d @ [last (names p)] \<mapsto> Directory)\<rparr>)))"
proof (cases "strip_trailing (py_split CHR ''/'' p) = []")
  case True
  then show ?thesis using assms strip_trailing_Nil [OF True] by (simp add: mkdir_def)
next
  case False
  define ss where "ss = strip_trailing (py_split CHR ''/'' p)"
  have n: "names p = filter (\<lambda>c. c \<noteq> []) (butlast ss) @ [last ss]"
    using strip_trailing_names [OF False] by (simp add: ss_def)
  then have ne: "names p \<noteq> []" and la: "last (names p) = last ss"
    and bu: "butlast (names p) = filter (\<lambda>c. c \<noteq> []) (butlast ss)"
    by simp_all
  have w: "walk fs (start_dir fs p) (butlast (names p) @ [[]])
           = walk fs (start_dir fs p) (butlast ss @ [[]])"
    using walk_filter [of fs "start_dir fs p" "butlast ss" "[]"] by (simp add: bu)
  have m: "mkdir fs p =
      (case walk fs (start_dir fs p) (butlast ss) of
              Inl e \<Rightarrow> (Some e, fs)
            | Inr d \<Rightarrow>
               (case node fs d of
                  None \<Rightarrow> (Some FileNotFoundError, fs)
                | Some RegularFile \<Rightarrow> (Some NotADirectoryError, fs)
                | Some Directory \<Rightarrow>
                    if last ss = ''.'' \<or> last ss = ''..'' then (Some FileExistsError, fs)
                    else if node fs (d @ [last ss]) \<noteq> None then (Some FileExistsError, fs)
                    else if readonly fs d then (Some PermissionError, fs)
                    else (None, fs\<lparr>entries := (entries fs)(d @ [last ss] \<mapsto> Directory)\<rparr>)))"
    using assms False unfolding ss_def by (simp add: mkdir_def Let_def)
  have r: "walk fs (start_dir fs p) (butlast (names p) @ [[]]) =
      (case walk fs (start_dir fs p) (butlast ss) of
         Inl e \<Rightarrow> Inl e
       | Inr d \<Rightarrow> (case node fs d of
                     None \<Rightarrow> Inl FileNotFoundError
                   | Some RegularFile \<Rightarrow> Inl NotADirectoryError
                   | Some Directory \<Rightarrow> Inr d))"
    by (subst w) (simp only: walk_dir)
  show ?thesis
  proof (cases "walk fs (start_dir fs p) (butlast ss)")
    case (Inl e)
    then show ?thesis by (simp add: m r la ne)
  next
    case (Inr d)
    show ?thesis
    proof (cases "node fs d")
      case None
      then show ?thesis using Inr by (simp add: m r la ne)
    next
      case (Some k)
      then show ?thesis using Inr by (cases k) (simp_all add: m r la ne)
    qed
  qed
qed

text \<open>\<open>stat\<close> in terms of the names of the path.\<close>

lemma py_split_snoc:
  "py_split sep (s @ [c]) =
     (if c = sep then py_split sep s @ [[]]
      else butlast (py_split sep s) @ [last (py_split sep s) @ [c]])"
proof (induction s)
  case Nil
  then show ?case by simp
next
  case (Cons a s)
  then show ?case
    using py_split_not_Nil [of sep s] py_split_not_Nil [of sep "s @ [c]"]
    by (cases "py_split sep s") (auto split: list.splits)
qed

lemma names_snoc:
  "c \<noteq> CHR ''/'' \<Longrightarrow>
   py_split CHR ''/'' (s @ [c]) = butlast (py_split CHR ''/'' (s @ [c])) @ [last (py_split CHR ''/'' (s @ [c]))]
   \<and> last (py_split CHR ''/'' (s @ [c])) \<noteq> []"
  by (simp add: py_split_snoc)

lemma stat_names:
  assumes "p \<noteq> []"
  shows "stat fs p =
     (case walk fs (start_dir fs p) (names p @ (if last p = CHR ''/'' then [[]] else [])) of
        Inl e \<Rightarrow> Inl e
      | Inr q \<Rightarrow> (case node fs q of None \<Rightarrow> Inl FileNotFoundError | Some k \<Rightarrow> Inr k))"
proof -
  obtain s c where p: "p = s @ [c]" using assms by (cases p rule: rev_cases) auto
  show ?thesis
  proof (cases "c = CHR ''/''")
    case True
    have "py_split CHR ''/'' p = py_split CHR ''/'' s @ [[]]"
      using True by (simp add: p py_split_snoc)
    moreover have "names p = names s"
      using True names_snoc_sep [of s] by (simp add: p)
    moreover have "walk fs (start_dir fs p) (py_split CHR ''/'' s @ [[]])
        = walk fs (start_dir fs p) (names s @ [[]])"
      using walk_filter [of fs "start_dir fs p" "py_split CHR ''/'' s" "[]"]
      by (simp add: names_def)
    ultimately show ?thesis using True assms by (simp add: stat_def p)
  next
    case False
    define cs where "cs = py_split CHR ''/'' p"
    have 1: "cs = butlast cs @ [last cs]" and 2: "last cs \<noteq> []"
      using names_snoc [OF False, of s] by (simp_all add: cs_def p)
    have "names p = filter (\<lambda>x. x \<noteq> []) (butlast cs @ [last cs])"
      using 1 by (simp add: names_def cs_def)
    then have n: "names p = filter (\<lambda>x. x \<noteq> []) (butlast cs) @ [last cs]"
      using 2 by simp
    have "walk fs (start_dir fs p) cs = walk fs (start_dir fs p) (butlast cs @ [last cs])"
      using 1 by simp
    also have "\<dots> = walk fs (start_dir fs p) (names p)"
      using walk_filter [of fs "start_dir fs p" "butlast cs" "last cs"] by (simp add: n)
    finally show ?thesis using False assms by (simp add: stat_def p cs_def)
  qed
qed

lemma isdir_names:
  "isdir fs p \<longleftrightarrow> p \<noteq> [] \<and> (\<exists>q. walk fs (start_dir fs p) (names p @ [[]]) = Inr q)"
proof (cases "p = []")
  case True
  then show ?thesis by (simp add: isdir_def stat_def)
next
  case False
  show ?thesis
    unfolding isdir_def stat_names [OF False] walk_dir
    using False by (auto simp: walk_dir split: sum.splits option.splits kind.splits)
qed


subsection \<open>The directory step only adds directories\<close>




lemma mkdir_grows: "mkdir fs p = (r, fs') \<Longrightarrow> grows fs fs'"
  by (auto simp: mkdir_def Let_def grows_def node_def
           split: if_splits sum.splits option.splits kind.splits)




lemma grows_node: "grows fs fs' \<Longrightarrow> node fs p \<noteq> None \<Longrightarrow> node fs' p = node fs p"
  unfolding grows_def node_def by (metis)

lemma grows_start_dir: "grows fs fs' \<Longrightarrow> start_dir fs' p = start_dir fs p"
  by (simp add: grows_def start_dir_def)

lemma grows_walk: "grows fs fs' \<Longrightarrow> walk fs cur cs = Inr q \<Longrightarrow> walk fs' cur cs = Inr q"
  using walk_mono [of fs fs' cur cs q] grows_node [of fs fs'] by blast

lemma names_nonempty: "x \<in> set (names p) \<Longrightarrow> x \<noteq> []"
  by (simp add: names_def)

lemma walk_dir_Inr:
  "walk fs s (ns @ [[]]) = Inr d \<longleftrightarrow> walk fs s ns = Inr d \<and> node fs d = Some Directory"
  by (auto simp: walk_dir split: sum.splits option.splits kind.splits)

lemma mkdir_ok_isdir:
  assumes "mkdir fs p = (None, fs')"
  shows "isdir fs' p"
proof -
  have p: "p \<noteq> []" using assms by (auto simp: mkdir_def Let_def)
  define ns where "ns = names p"
  define l where "l = last ns"
  note m = assms [unfolded mkdir_names [OF p], folded ns_def, folded l_def]
  have ne: "ns \<noteq> []" using m by (auto split: if_splits)
  obtain d where w: "walk fs (start_dir fs p) (butlast ns @ [[]]) = Inr d"
    using m ne by (auto split: sum.splits)
  have l1: "l \<noteq> ''.''" and l2: "l \<noteq> ''..''" and free: "node fs (d @ [l]) = None"
    and fs': "fs' = fs\<lparr>entries := (entries fs)(d @ [l] \<mapsto> Directory)\<rparr>"
    using m ne w by (auto split: if_splits)
  have l0: "l \<noteq> []" using ne names_nonempty [of l p] by (simp add: l_def ns_def)
  have g: "grows fs fs'" using assms by (rule mkdir_grows)
  from w have w1: "walk fs (start_dir fs p) (butlast ns) = Inr d"
    and dd: "node fs d = Some Directory"
    by (simp_all add: walk_dir_Inr)
  have w2: "walk fs' (start_dir fs p) (butlast ns) = Inr d"
    using g w1 by (rule grows_walk)
  have dd': "node fs' d = Some Directory"
    using grows_node [OF g, of d] dd by simp
  have new: "node fs' (d @ [l]) = Some Directory"
    by (simp add: fs' node_def)
  have "walk fs' d [l, []] = Inr (d @ [l])"
    using dd' new l0 l1 l2 by simp
  then have "walk fs' (start_dir fs p) (butlast ns @ [l, []]) = Inr (d @ [l])"
    using w2 by (simp add: walk_append)
  moreover have "names p @ [[]] = butlast ns @ [l, []]"
    using ne by (simp add: ns_def l_def)
  ultimately have "walk fs' (start_dir fs' p) (names p @ [[]]) = Inr (d @ [l])"
    using grows_start_dir [OF g, of p] by simp
  then show ?thesis using p by (auto simp: isdir_names)
qed

lemma make_leaf_ok_isdir: "make_leaf fs name True = (None, fs') \<Longrightarrow> isdir fs' name"
  by (cases "mkdir fs name")
     (auto simp: make_leaf_def dest: mkdir_ok_isdir split: option.splits if_splits)

lemma makedirs_ok_isdir:
  assumes "snd (split_name name) \<noteq> ''.''" and "makedirs fs name True = (None, fs')"
  shows "isdir fs' name"
proof (cases "fst (split_name name) \<noteq> [] \<and> snd (split_name name) \<noteq> []
         \<and> \<not> path_exists fs (fst (split_name name))")
  case True
  obtain r1 fs1 where h: "makedirs fs (fst (split_name name)) True = (r1, fs1)"
    by (cases "makedirs fs (fst (split_name name)) True")
  have "after_head (r1, fs1) (snd (split_name name)) name True = (None, fs')"
    using assms(2) True h by (subst (asm) makedirs.simps) simp
  then have "make_leaf fs1 name True = (None, fs')"
    using assms(1) by (auto simp: after_head_def split: option.splits if_splits)
  then show ?thesis by (rule make_leaf_ok_isdir)
next
  case False
  then have "make_leaf fs name True = (None, fs')"
    using assms(2) by (subst (asm) makedirs.simps) auto
  then show ?thesis by (rule make_leaf_ok_isdir)
qed

text \<open>An existing directory: nothing is created and nothing is raised.\<close>

lemma isdir_makedirs:
  assumes d: "isdir fs name"
    and t: "snd (split_name name) \<noteq> []" "snd (split_name name) \<noteq> ''.''"
           "snd (split_name name) \<noteq> ''..''"
  shows "makedirs fs name True = (None, fs)"
proof -
  define h where "h = fst (split_name name)"
  define tl where "tl = snd (split_name name)"
  have n: "names name = names h @ [tl]"
    using names_split_name [OF t(1)] by (simp add: h_def tl_def)
  have p: "name \<noteq> []" using d by (simp add: isdir_names)
  obtain q where q: "walk fs (start_dir fs name) (names h @ [tl, []]) = Inr q"
    using d n by (auto simp: isdir_names)
  then obtain d0 where w0: "walk fs (start_dir fs name) (names h) = Inr d0"
    and w1: "walk fs d0 [tl, []] = Inr q"
    by (auto simp: walk_append split: sum.splits)
  have dd: "node fs d0 = Some Directory"
    using w1 by (auto split: option.splits kind.splits)
  have tgt: "node fs (d0 @ [tl]) = Some Directory"
    using w1 dd t by (auto simp: tl_def split: option.splits kind.splits)
  have ex: "path_exists fs h" if "h \<noteq> []"
  proof -
    have s: "start_dir fs h = start_dir fs name"
      using start_dir_prefix [OF split_name_prefix [of name], of fs] that by (simp add: h_def)
    have "walk fs (start_dir fs h) (names h @ (if last h = CHR ''/'' then [[]] else [])) = Inr d0"
      using w0 dd by (simp add: s walk_dir_Inr)
    then show ?thesis using that dd by (simp add: path_exists_def stat_names)
  qed
  have wd: "walk fs (start_dir fs name) (butlast (names name) @ [[]]) = Inr d0"
    using w0 dd by (simp add: n walk_dir_Inr)
  have "mkdir fs name = (Some FileExistsError, fs)"
    using t tgt wd by (simp add: mkdir_names [OF p] n tl_def [symmetric])
  then have leaf: "make_leaf fs name True = (None, fs)"
    using d by (simp add: make_leaf_def)
  show ?thesis
    using ex leaf by (subst makedirs.simps) (auto simp: h_def)
qed

subsection \<open>No missing parent on a well-formed disk\<close>











lemma firmware_tail: "snd (split_name (path_join root ''firmware'')) = ''firmware''"
proof -
  obtain a where a: "path_join root ''firmware'' = a @ ''firmware''"
    and l: "a = [] \<or> last a = CHR ''/''"
    by (cases "root = [] \<or> last root = CHR ''/''") (auto simp: path_join_def)
  have "takeWhile (\<lambda>c. c \<noteq> CHR ''/'') (rev a) = []"
    using l by (cases a rule: rev_cases) auto
  then have "snd (path_split (a @ ''firmware'')) = ''firmware''"
    by (simp add: snd_path_split takeWhile_append2)
  then show ?thesis by (simp add: split_name_cases a)
qed


subsection \<open>The hook in terms of its directory step\<close>

lemma pre_build_action_fst:
  "fst (pre_build_action w)
     = map_option OSError (fst (makedirs (filesys w) (firmware_dir (environ w)) True))"
proof -
  obtain bm where s: "scan_flags (env_get_flags (environ w)) = Inr bm"
    using scan_flags_no_error [of "env_get_flags (environ w)"]
    by (cases "scan_flags (env_get_flags (environ w))") auto
  show ?thesis
    by (cases "makedirs (filesys w) (firmware_dir (environ w)) True")
       (simp add: pre_build_action_def s Let_def)
qed

lemma pre_build_action_filesys:
  "filesys (snd (pre_build_action w))
     = snd (makedirs (filesys w) (firmware_dir (environ w)) True)"
proof -
  obtain bm where s: "scan_flags (env_get_flags (environ w)) = Inr bm"
    using scan_flags_no_error [of "env_get_flags (environ w)"]
    by (cases "scan_flags (env_get_flags (environ w))") auto
  show ?thesis
    by (cases "makedirs (filesys w) (firmware_dir (environ w)) True")
       (simp add: pre_build_action_def s Let_def)
qed

lemma pre_build_action_environ: "environ (snd (pre_build_action w)) = environ w"
  by (simp add: pre_build_action_def Let_def split: sum.splits prod.splits)

lemma firmware_dir_ok_isdir:
  assumes "fst (makedirs fs (firmware_dir e) True) = None"
  shows "isdir (snd (makedirs fs (firmware_dir e) True)) (firmware_dir e)"
proof -
  obtain fs' where m: "makedirs fs (firmware_dir e) True = (None, fs')"
    using assms by (cases "makedirs fs (firmware_dir e) True") simp
  have "snd (split_name (firmware_dir e)) \<noteq> ''.''"
    by (simp add: firmware_dir_def firmware_tail)
  then have "isdir fs' (firmware_dir e)" using m by (rule makedirs_ok_isdir)
  then show ?thesis by (simp add: m)
qed

lemma isdir_firmware_dir_noop:
  assumes "isdir fs (firmware_dir e)"
  shows "makedirs fs (firmware_dir e) True = (None, fs)"
  using assms by (intro isdir_makedirs) (simp_all add: firmware_dir_def firmware_tail)





lemma mkdir_single:
  "mkdir fs p = (r, fs') \<Longrightarrow>
   fs' = fs \<or> (\<exists>q. entries fs q = None \<and> fs' = fs\<lparr>entries := (entries fs)(q \<mapsto> Directory)\<rparr>)"
  by (auto simp: mkdir_def Let_def node_def
           split: if_splits sum.splits option.splits kind.splits)

lemma make_leaf_single:
  "make_leaf fs p ok = (r, fs') \<Longrightarrow>
   fs' = fs \<or> (\<exists>q. entries fs q = None \<and> fs' = fs\<lparr>entries := (entries fs)(q \<mapsto> Directory)\<rparr>)"
  by (cases "mkdir fs p")
     (auto simp: make_leaf_def dest: mkdir_single split: option.splits if_splits)


subsection \<open>Success on an unblocked disk\<close>









subsection \<open>What the directory step creates\<close>






lemmas disk_eval =
  makedirs.simps split_name_def path_split_def rstrip_sep_def path_exists_def stat_def
  start_dir_def node_def after_head_def make_leaf_def mkdir_def strip_trailing_def isdir_def
  path_join_def firmware_dir_def

section \<open>The claims about the scan and the log line\<close>

text \<open>
  C1, as stated, fails: the value is not "the substring after the first \<open>=\<close>" when that
  substring holds a further \<open>=\<close>. For the single flag \<open>BOARD_MODEL=a=b\<close> the scan
  returns \<open>a\<close>, while the substring after the first \<open>=\<close> is \<open>a=b\<close>.
\<close>

theorem scan_flags_after_first_eq_counterexample:
  "find (contains marker) [''BOARD_MODEL=a=b''] = Some (marker @ ''a=b'')
   \<and> scan_flags [''BOARD_MODEL=a=b''] = Inr (Some ''a'')
   \<and> scan_flags [''BOARD_MODEL=a=b''] \<noteq> Inr (Some (spec_after_first_eq ''BOARD_MODEL=a=b''))
   \<and> scan_flags [marker @ ''a=b''] \<noteq> Inr (Some ''a=b'')"
  by (simp add: marker_def split_value_def py_index_def spec_after_first_eq_def)

text \<open>
  C1 (amended): the scan finds the first flag containing \<open>BOARD_MODEL=\<close> and returns
  the part of that flag between its first \<open>=\<close> and its next \<open>=\<close> (the whole rest
  of the flag when there is no further \<open>=\<close>); without such a flag the value is absent.
  In particular, for every \<open>X\<close> without \<open>=\<close>, a flags list whose first flag
  containing the marker is \<open>BOARD_MODEL=X\<close> makes the scan return \<open>X\<close>.
\<close>

theorem scan_flags_first_marker:
  "scan_flags flags =
     (case find (contains marker) flags of
        None \<Rightarrow> Inr None
      | Some f \<Rightarrow> Inr (Some (takeWhile (\<lambda>c. c \<noteq> CHR ''='') (spec_after_first_eq f))))
   \<and> (\<forall>X. CHR ''='' \<notin> set X \<and> find (contains marker) flags = Some (marker @ X)
          \<longrightarrow> scan_flags flags = Inr (Some X))"
proof (cases "find (contains marker) flags")
  case None
  then show ?thesis by (simp add: scan_flags_find)
next
  case (Some f)
  then have eq: "CHR ''='' \<in> set f"
    by (intro marker_has_eq find_marker_contains)
  have v: "scan_flags flags = Inr (Some (takeWhile (\<lambda>c. c \<noteq> CHR ''='') (spec_after_first_eq f)))"
    using Some eq by (simp add: scan_flags_find split_value_eq)
  have "takeWhile (\<lambda>c. c \<noteq> CHR ''='') (spec_after_first_eq (marker @ X)) = X"
    if "CHR ''='' \<notin> set X" for X
    using that by (auto simp: marker_def spec_after_first_eq_def)
  with v Some show ?thesis by auto
qed

text \<open>C1 (amended) at concrete flags lists.\<close>

theorem scan_flags_first_marker_witness:
  "CHR ''='' \<notin> set ''esp32''
   \<and> find (contains marker) [''-Os'', ''BOARD_MODEL=esp32'', ''-DBOARD_MODEL=other''] = Some (marker @ ''esp32'')
   \<and> scan_flags [''-Os'', ''BOARD_MODEL=esp32'', ''-DBOARD_MODEL=other''] = Inr (Some ''esp32'')
   \<and> scan_flags [''-Os'', ''-DBOARD_MODEL=a=b''] = Inr (Some ''a'')
   \<and> scan_flags [''-Os''] = Inr None"
  using scan_flags_first_marker [of "[''-Os'', ''BOARD_MODEL=esp32'', ''-DBOARD_MODEL=other'']"]
        scan_flags_first_marker [of "[''-Os'', ''-DBOARD_MODEL=a=b'']"]
        scan_flags_first_marker [of "[''-Os'']"]
  by (simp add: marker_def spec_after_first_eq_def)

text \<open>
  C2, as stated, fails: for the flags list \<open>["BOARD_MODEL="]\<close> the scan finds a value,
  the empty string, and the hook prints nothing.
\<close>

theorem log_line_whenever_found_counterexample:
  "scan_flags (env_get_flags (environ (world_of [''BOARD_MODEL=''] ''/tmp/proj'' proj_disk))) = Inr (Some [])
   \<and> console (snd (pre_build_action (world_of [''BOARD_MODEL=''] ''/tmp/proj'' proj_disk))) = []
   \<and> console (snd (pre_build_action (world_of [''BOARD_MODEL=''] ''/tmp/proj'' proj_disk)))
       \<noteq> [log_line []]"
  by (simp add: console_pre_build_action world_of_def env_get_flags_def marker_def
        split_value_def py_index_def)

text \<open>
  C2 (amended): whenever the scan finds a non-empty board-model value \<open>v\<close>, the hook
  appends to the console exactly the line \<open>[Geogram] Building for board model: v\<close>;
  in particular, for the flags \<open>["BOARD_MODEL=esp32", "OTHER=1"]\<close> and an empty console
  the output is exactly \<open>[Geogram] Building for board model: esp32\<close>.
\<close>

theorem log_line_nonempty_value:
  "(\<forall>v. scan_flags (env_get_flags (environ w)) = Inr (Some v) \<and> v \<noteq> []
        \<longrightarrow> console (snd (pre_build_action w))
            = console w @ [''[Geogram] Building for board model: '' @ v])
   \<and> (env_get_flags (environ w) = [''BOARD_MODEL=esp32'', ''OTHER=1''] \<and> console w = []
        \<longrightarrow> console (snd (pre_build_action w)) = [''[Geogram] Building for board model: esp32''])"
  by (simp add: console_pre_build_action log_line_def marker_def split_value_def py_index_def)

text \<open>C2 (amended) at two concrete builds.\<close>

theorem log_line_nonempty_value_witness:
  "scan_flags (env_get_flags (environ (world_of [''-Os'', ''-DBOARD_MODEL=esp32s3''] ''/tmp/proj'' proj_disk)))
     = Inr (Some ''esp32s3'')
   \<and> ''esp32s3'' \<noteq> []
   \<and> console (snd (pre_build_action (world_of [''-Os'', ''-DBOARD_MODEL=esp32s3''] ''/tmp/proj'' proj_disk)))
     = [''[Geogram] Building for board model: esp32s3'']
   \<and> env_get_flags (environ (world_of [''BOARD_MODEL=esp32'', ''OTHER=1''] ''/tmp/proj'' proj_disk))
     = [''BOARD_MODEL=esp32'', ''OTHER=1'']
   \<and> console (world_of [''BOARD_MODEL=esp32'', ''OTHER=1''] ''/tmp/proj'' proj_disk) = []
   \<and> console (snd (pre_build_action (world_of [''BOARD_MODEL=esp32'', ''OTHER=1''] ''/tmp/proj'' proj_disk)))
     = [''[Geogram] Building for board model: esp32'']"
  using log_line_nonempty_value [of "world_of [''-Os'', ''-DBOARD_MODEL=esp32s3''] ''/tmp/proj'' proj_disk"]
        log_line_nonempty_value [of "world_of [''BOARD_MODEL=esp32'', ''OTHER=1''] ''/tmp/proj'' proj_disk"]
  by (simp add: world_of_def env_get_flags_def marker_def split_value_def py_index_def)

text \<open>
  C3: when several flags contain \<open>BOARD_MODEL=\<close>, the value comes from the first of
  them in list order: the result is that of scanning this flag alone, whatever follows it.
\<close>

theorem scan_flags_first_wins:
  "\<forall>g \<in> set pre. \<not> contains marker g \<Longrightarrow> contains marker f \<Longrightarrow>
   scan_flags (pre @ f # rest) = scan_flags [f] \<and> (\<exists>v. scan_flags [f] = Inr (Some v))"
proof -
  assume pre: "\<forall>g \<in> set pre. \<not> contains marker g" and f: "contains marker f"
  have "scan_flags (pre @ f # rest) = scan_flags (f # rest)"
    using pre by (rule scan_flags_skip)
  moreover have "scan_flags (f # rest) = scan_flags [f]"
    using f by simp
  moreover have "\<exists>v. scan_flags [f] = Inr (Some v)"
    using f marker_has_eq [OF f] by (simp add: split_value_eq)
  ultimately show ?thesis by simp
qed

text \<open>C3 at a flags list with three matching flags.\<close>

theorem scan_flags_first_wins_witness:
  "\<not> contains marker ''-Os'' \<and> \<not> contains marker ''-Wall''
   \<and> contains marker ''-DBOARD_MODEL=esp32''
   \<and> scan_flags ([''-Os'', ''-Wall''] @ ''-DBOARD_MODEL=esp32'' # [''BOARD_MODEL=s3'', ''BOARD_MODEL=c3''])
       = scan_flags [''-DBOARD_MODEL=esp32'']
   \<and> scan_flags [''-DBOARD_MODEL=esp32''] = Inr (Some ''esp32'')"
  using scan_flags_first_wins [of "[''-Os'', ''-Wall'']" "''-DBOARD_MODEL=esp32''"
          "[''BOARD_MODEL=s3'', ''BOARD_MODEL=c3'']"]
  by (simp add: marker_def split_value_def py_index_def)

text \<open>
  C4: when no flag contains \<open>BOARD_MODEL=\<close>, the scan returns the absent value, the
  console is left as it was, and the scan raises nothing: the hook is then exactly its
  directory step.
\<close>

theorem no_marker_no_log:
  "\<forall>f \<in> set (env_get_flags (environ w)). \<not> contains marker f \<Longrightarrow>
   scan_flags (env_get_flags (environ w)) = Inr None
   \<and> console (snd (pre_build_action w)) = console w
   \<and> fst (pre_build_action w) \<noteq> Some IndexError
   \<and> pre_build_action w =
       (case makedirs (filesys w) (firmware_dir (environ w)) True of
          (r, fs') \<Rightarrow> (map_option OSError r, w\<lparr>filesys := fs'\<rparr>))"
proof -
  assume a: "\<forall>f \<in> set (env_get_flags (environ w)). \<not> contains marker f"
  have s: "scan_flags (env_get_flags (environ w)) = Inr None"
    using scan_flags_skip [OF a, of "[]"] by simp
  have h: "pre_build_action w =
       (case makedirs (filesys w) (firmware_dir (environ w)) True of
          (r, fs') \<Rightarrow> (map_option OSError r, w\<lparr>filesys := fs'\<rparr>))"
    by (simp add: pre_build_action_def s)
  have c: "console (snd (pre_build_action w)) = console w"
    by (simp add: console_pre_build_action s)
  have e: "fst (pre_build_action w) \<noteq> Some IndexError"
    by (cases "makedirs (filesys w) (firmware_dir (environ w)) True") (auto simp: h)
  from s h c e show ?thesis by blast
qed

text \<open>C4 at a build without the flag, on a disk where \<open>/tmp/proj\<close> exists.\<close>

theorem no_marker_no_log_witness:
  "env_get_flags (environ (world_of [''-Os'', ''OTHER=1''] ''/tmp/proj'' proj_disk))
       = [''-Os'', ''OTHER=1'']
   \<and> \<not> contains marker ''-Os'' \<and> \<not> contains marker ''OTHER=1''
   \<and> scan_flags (env_get_flags (environ (world_of [''-Os'', ''OTHER=1''] ''/tmp/proj'' proj_disk)))
       = Inr None
   \<and> console (snd (pre_build_action (world_of [''-Os'', ''OTHER=1''] ''/tmp/proj'' proj_disk))) = []
   \<and> fst (pre_build_action (world_of [''-Os'', ''OTHER=1''] ''/tmp/proj'' proj_disk)) = None"
proof -
  let ?w = "world_of [''-Os'', ''OTHER=1''] ''/tmp/proj'' proj_disk"
  have 1: "\<forall>f \<in> set (env_get_flags (environ ?w)). \<not> contains marker f"
    by (simp add: world_of_def env_get_flags_def marker_def)
  have 2: "console ?w = []"
    by (simp add: world_of_def)
  have 3: "fst (makedirs (filesys ?w) (firmware_dir (environ ?w)) True) = None"
    by (simp add: world_of_def proj_disk_def disk_eval)
  note t = no_marker_no_log [OF 1]
  have s: "scan_flags (env_get_flags (environ ?w)) = Inr None"
    using t by (rule conjunct1)
  have c: "console (snd (pre_build_action ?w)) = console ?w"
    using t by blast
  have h: "pre_build_action ?w =
       (case makedirs (filesys ?w) (firmware_dir (environ ?w)) True of
          (r, fs') \<Rightarrow> (map_option OSError r, ?w\<lparr>filesys := fs'\<rparr>))"
    using t by blast
  have 4: "fst (pre_build_action ?w) = None"
    using 3 by (cases "makedirs (filesys ?w) (firmware_dir (environ ?w)) True") (simp add: h)
  have 5: "env_get_flags (environ ?w) = [''-Os'', ''OTHER=1'']"
    by (simp add: world_of_def env_get_flags_def)
  have 6: "\<not> contains marker ''-Os'' \<and> \<not> contains marker ''OTHER=1''"
    by (simp add: marker_def)
  show ?thesis
    using 5 6 s c 2 4 by simp
qed

text \<open>
  C8: when the first flag containing \<open>BOARD_MODEL=\<close> yields the empty string, the scan
  stops there with the empty value, whatever follows, and the hook prints nothing.
\<close>

theorem empty_value_no_log:
  "\<forall>g \<in> set pre. \<not> contains marker g \<Longrightarrow> contains marker f \<Longrightarrow> split_value f = Inr [] \<Longrightarrow>
   env_get_flags (environ w) = pre @ f # rest \<Longrightarrow>
   scan_flags (pre @ f # rest) = Inr (Some []) \<and> console (snd (pre_build_action w)) = console w"
proof -
  assume pre: "\<forall>g \<in> set pre. \<not> contains marker g" and f: "contains marker f"
    and v: "split_value f = Inr []" and w: "env_get_flags (environ w) = pre @ f # rest"
  have "scan_flags (pre @ f # rest) = scan_flags (f # rest)"
    using pre by (rule scan_flags_skip)
  then have s: "scan_flags (pre @ f # rest) = Inr (Some [])"
    using f v by simp
  then show ?thesis
    by (simp add: console_pre_build_action w)
qed

text \<open>C8 at the flag \<open>BOARD_MODEL=\<close> followed by a flag with a value.\<close>

theorem empty_value_no_log_witness:
  "\<not> contains marker ''-Os'' \<and> contains marker ''BOARD_MODEL=''
   \<and> split_value ''BOARD_MODEL='' = Inr []
   \<and> env_get_flags (environ (world_of [''-Os'', ''BOARD_MODEL='', ''BOARD_MODEL=esp32''] ''/tmp/proj'' proj_disk))
       = [''-Os''] @ ''BOARD_MODEL='' # [''BOARD_MODEL=esp32'']
   \<and> scan_flags ([''-Os''] @ ''BOARD_MODEL='' # [''BOARD_MODEL=esp32'']) = Inr (Some [])
   \<and> console (snd (pre_build_action
        (world_of [''-Os'', ''BOARD_MODEL='', ''BOARD_MODEL=esp32''] ''/tmp/proj'' proj_disk))) = []"
proof -
  have 1: "\<forall>g \<in> set [''-Os'']. \<not> contains marker g" by (simp add: marker_def)
  have 2: "contains marker ''BOARD_MODEL=''" by (simp add: marker_def)
  have 3: "split_value ''BOARD_MODEL='' = Inr []" by (simp add: split_value_def py_index_def)
  have 4: "env_get_flags (environ (world_of [''-Os'', ''BOARD_MODEL='', ''BOARD_MODEL=esp32''] ''/tmp/proj'' proj_disk))
       = [''-Os''] @ ''BOARD_MODEL='' # [''BOARD_MODEL=esp32'']"
    by (simp add: world_of_def env_get_flags_def)
  have 5: "console (world_of [''-Os'', ''BOARD_MODEL='', ''BOARD_MODEL=esp32''] ''/tmp/proj'' proj_disk) = []"
    by (simp add: world_of_def)
  show ?thesis
    using empty_value_no_log [OF 1 2 3 4] 1 2 3 4 5 by simp
qed

section \<open>The claims about the directory step\<close>

text \<open>
  C5: the hook creates the directory obtained by joining the project root with
  \<open>firmware\<close>, and whenever the hook returns without an error that path is a directory
  afterwards; in particular for the project directory \<open>/tmp/proj\<close>, where
  \<open>/tmp/proj/firmware\<close> then exists.
\<close>

theorem firmware_dir_exists:
  "filesys (snd (pre_build_action w))
     = snd (makedirs (filesys w) (path_join (PROJECT_DIR (environ w)) ''firmware'') True)
   \<and> (fst (pre_build_action w) = None
        \<longrightarrow> isdir (filesys (snd (pre_build_action w)))
              (path_join (PROJECT_DIR (environ w)) ''firmware''))
   \<and> (PROJECT_DIR (environ w) = ''/tmp/proj'' \<and> fst (pre_build_action w) = None
        \<longrightarrow> isdir (filesys (snd (pre_build_action w))) ''/tmp/proj/firmware'')"
proof -
  have j: "path_join ''/tmp/proj'' ''firmware'' = ''/tmp/proj/firmware''"
    by (simp add: path_join_def)
  have a: "filesys (snd (pre_build_action w))
     = snd (makedirs (filesys w) (path_join (PROJECT_DIR (environ w)) ''firmware'') True)"
    using pre_build_action_filesys [of w] by (simp add: firmware_dir_def)
  have b: "isdir (filesys (snd (pre_build_action w)))
              (path_join (PROJECT_DIR (environ w)) ''firmware'')"
    if "fst (pre_build_action w) = None"
  proof -
    have "fst (makedirs (filesys w) (firmware_dir (environ w)) True) = None"
      using that by (simp add: pre_build_action_fst)
    then show ?thesis
      using firmware_dir_ok_isdir [of "filesys w" "environ w"]
      by (simp add: pre_build_action_filesys) (simp add: firmware_dir_def)
  qed
  show ?thesis using a b j by metis
qed

text \<open>
  C5 on a disk where \<open>/tmp/proj\<close> exists without a \<open>firmware\<close> subdirectory: the hook
  succeeds and the subdirectory exists afterwards.
\<close>

theorem firmware_dir_exists_witness:
  "PROJECT_DIR (environ (world_of [''BOARD_MODEL=esp32''] ''/tmp/proj'' proj_disk)) = ''/tmp/proj''
   \<and> \<not> isdir (filesys (world_of [''BOARD_MODEL=esp32''] ''/tmp/proj'' proj_disk)) ''/tmp/proj/firmware''
   \<and> fst (pre_build_action (world_of [''BOARD_MODEL=esp32''] ''/tmp/proj'' proj_disk)) = None
   \<and> isdir (filesys (snd (pre_build_action (world_of [''BOARD_MODEL=esp32''] ''/tmp/proj'' proj_disk))))
        ''/tmp/proj/firmware''"
proof -
  let ?w = "world_of [''BOARD_MODEL=esp32''] ''/tmp/proj'' proj_disk"
  have 1: "PROJECT_DIR (environ ?w) = ''/tmp/proj''" by (simp add: world_of_def)
  have 2: "\<not> isdir (filesys ?w) ''/tmp/proj/firmware''"
    by (simp add: world_of_def proj_disk_def disk_eval)
  have "fst (makedirs (filesys ?w) (firmware_dir (environ ?w)) True) = None"
    by (simp add: world_of_def proj_disk_def disk_eval)
  then have 3: "fst (pre_build_action ?w) = None" by (simp add: pre_build_action_fst)
  show ?thesis using firmware_dir_exists [of ?w] 1 2 3 by blast
qed

text \<open>
  C6: the directory step on a firmware directory that already exists succeeds and
  changes nothing; so a second run after a successful one succeeds and leaves the disk
  as the first run left it, for the directory step alone and for the whole hook.
\<close>

theorem makedirs_idempotent:
  "(isdir fs (firmware_dir e) \<longrightarrow> makedirs fs (firmware_dir e) True = (None, fs))
   \<and> (makedirs fs (firmware_dir e) True = (None, fs1)
        \<longrightarrow> makedirs fs1 (firmware_dir e) True = (None, fs1))
   \<and> (fst (pre_build_action w) = None
        \<longrightarrow> fst (pre_build_action (snd (pre_build_action w))) = None
            \<and> filesys (snd (pre_build_action (snd (pre_build_action w))))
                = filesys (snd (pre_build_action w)))"
proof -
  have a: "makedirs fs0 (firmware_dir e0) True = (None, fs0)" if "isdir fs0 (firmware_dir e0)"
    for fs0 e0
    using that by (rule isdir_firmware_dir_noop)
  have b: "makedirs fs1 (firmware_dir e) True = (None, fs1)"
    if "makedirs fs (firmware_dir e) True = (None, fs1)"
  proof -
    have "isdir fs1 (firmware_dir e)"
      using firmware_dir_ok_isdir [of fs e] that by simp
    then show ?thesis by (rule a)
  qed
  have c: "fst (pre_build_action (snd (pre_build_action w))) = None
            \<and> filesys (snd (pre_build_action (snd (pre_build_action w))))
                = filesys (snd (pre_build_action w))"
    if "fst (pre_build_action w) = None"
  proof -
    define w1 where "w1 = snd (pre_build_action w)"
    have ok: "fst (makedirs (filesys w) (firmware_dir (environ w)) True) = None"
      using that by (simp add: pre_build_action_fst)
    have "isdir (filesys w1) (firmware_dir (environ w))"
      using firmware_dir_ok_isdir [OF ok] by (simp add: w1_def pre_build_action_filesys)
    then have "makedirs (filesys w1) (firmware_dir (environ w1)) True = (None, filesys w1)"
      using a [of "filesys w1" "environ w"] by (simp add: w1_def pre_build_action_environ)
    then have "fst (pre_build_action w1) = None \<and> filesys (snd (pre_build_action w1)) = filesys w1"
      by (simp add: pre_build_action_fst pre_build_action_filesys)
    then show ?thesis by (simp add: w1_def)
  qed
  show ?thesis using a b c by blast
qed

text \<open>C6 on a disk with the root directory only: the first run creates, the second does not.\<close>

theorem makedirs_idempotent_witness:
  "fst (pre_build_action (world_of [''BOARD_MODEL=esp32''] ''/tmp/proj'' empty_disk)) = None
   \<and> filesys (snd (pre_build_action (world_of [''BOARD_MODEL=esp32''] ''/tmp/proj'' empty_disk)))
       \<noteq> empty_disk
   \<and> fst (pre_build_action
        (snd (pre_build_action (world_of [''BOARD_MODEL=esp32''] ''/tmp/proj'' empty_disk)))) = None
   \<and> filesys (snd (pre_build_action
        (snd (pre_build_action (world_of [''BOARD_MODEL=esp32''] ''/tmp/proj'' empty_disk)))))
       = filesys (snd (pre_build_action (world_of [''BOARD_MODEL=esp32''] ''/tmp/proj'' empty_disk)))"
proof -
  let ?w = "world_of [''BOARD_MODEL=esp32''] ''/tmp/proj'' empty_disk"
  have "fst (makedirs (filesys ?w) (firmware_dir (environ ?w)) True) = None"
    by (simp add: world_of_def empty_disk_def disk_eval)
  then have 1: "fst (pre_build_action ?w) = None" by (simp add: pre_build_action_fst)
  have "entries (snd (makedirs (filesys ?w) (firmware_dir (environ ?w)) True)) [''tmp'']
        = Some Directory"
    by (simp add: world_of_def empty_disk_def disk_eval)
  moreover have "entries empty_disk [''tmp''] = None" by (simp add: empty_disk_def)
  ultimately have 2: "filesys (snd (pre_build_action ?w)) \<noteq> empty_disk"
    by (auto simp: pre_build_action_filesys)
  show ?thesis using makedirs_idempotent [of _ _ _ ?w] 1 2 by blast
qed

text \<open>
  C7: the exception that leaves the hook is exactly the one that leaves its single call
  of \<open>os.makedirs\<close>, and the disk is the one that call leaves: nothing is caught and
  nothing is retried. The scan never raises, and the outcome does not depend on the
  build flags, so a missing board-model flag is no failure.
\<close>

theorem only_directory_errors:
  "fst (pre_build_action w)
     = map_option OSError (fst (makedirs (filesys w) (firmware_dir (environ w)) True))
   \<and> filesys (snd (pre_build_action w))
     = snd (makedirs (filesys w) (firmware_dir (environ w)) True)
   \<and> fst (pre_build_action w) \<noteq> Some IndexError
   \<and> fst (pre_build_action (w\<lparr>environ := (environ w)\<lparr>BUILD_FLAGS := flags\<rparr>\<rparr>))
       = fst (pre_build_action w)"
proof -
  have "fst (pre_build_action w) \<noteq> Some IndexError"
    by (cases "fst (makedirs (filesys w) (firmware_dir (environ w)) True)")
       (simp_all add: pre_build_action_fst)
  then show ?thesis
    by (simp add: pre_build_action_fst pre_build_action_filesys firmware_dir_def)
qed

text \<open>C7 on a disk where the project directory refuses new entries.\<close>

theorem only_directory_errors_witness:
  "fst (makedirs locked_disk ''/tmp/proj/firmware'' True) = Some PermissionError
   \<and> fst (pre_build_action (world_of [''-Os''] ''/tmp/proj'' locked_disk))
       = Some (OSError PermissionError)
   \<and> filesys (snd (pre_build_action (world_of [''-Os''] ''/tmp/proj'' locked_disk))) = locked_disk"
proof -
  let ?w = "world_of [''-Os''] ''/tmp/proj'' locked_disk"
  have f: "firmware_dir (environ ?w) = ''/tmp/proj/firmware''" "filesys ?w = locked_disk"
    by (simp_all add: world_of_def firmware_dir_def path_join_def)
  have m: "makedirs locked_disk ''/tmp/proj/firmware'' True = (Some PermissionError, locked_disk)"
    by (simp add: locked_disk_def proj_disk_def disk_eval)
  show ?thesis using only_directory_errors [of ?w] by (simp add: f m)
qed





end
